theory Spec2Isabelle
  imports Main "HOL-Library.Sublist"
begin

section \<open>The future handle and the calls the adapter makes on it\<close>

text \<open>
  \<^verbatim>\<open>qcorofuture.h\<close> adapts a \<^verbatim>\<open>QFuture<T>\<close> to \<^verbatim>\<open>co_await\<close>. The future itself is the
  collaborator's type: the header only calls \<^verbatim>\<open>isFinished\<close>, \<^verbatim>\<open>isCanceled\<close>,
  \<^verbatim>\<open>waitForFinished\<close>, \<^verbatim>\<open>isResultReadyAt\<close>, \<^verbatim>\<open>result\<close> and \<^verbatim>\<open>takeResult\<close> on it.
  The type parameter \<open>'a\<close> is the result type \<^verbatim>\<open>T\<close>, \<open>'e\<close> the type of a failure
  recorded by the producer.
\<close>

text \<open>
  Modelled from the spec: the shared state behind a \<^verbatim>\<open>QFuture<T>\<close> handle (section 3,
  FutureHandle: finished or not, canceled or not, result slots that may be populated or
  not, and a finished-with-error state in which the producer recorded a failure).
\<close>

record ('a, 'e) QFuture =
  stateFinished :: bool
  stateCanceled :: bool
  resultStore :: "nat \<Rightarrow> 'a option"
  exceptionStore :: "'e option"

text \<open>
  What \<^verbatim>\<open>await_resume\<close> throws: one of the two \<^verbatim>\<open>std::runtime_error\<close>s of the header, or
  the failure stored in the future, re-thrown by \<^verbatim>\<open>QFuture::waitForFinished\<close>.
\<close>

datatype 'e exn = runtime_error string | stored_exception 'e

definition ResultNotReady :: "'e exn" where
  "ResultNotReady = runtime_error ''QFuture finished without a result''"

definition InvalidOrCanceled :: "'e exn" where
  "InvalidOrCanceled = runtime_error ''QFuture was invalid or canceled''"

text \<open>Every call on the future is logged, in order, next to the future's shared state.\<close>

datatype qcall =
  CallIsFinished | CallIsCanceled | CallWaitForFinished
  | CallIsResultReadyAt nat | CallResult | CallTakeResult

record ('a, 'e) env =
  fut :: "('a, 'e) QFuture"
  calls :: "qcall list"

definition logged :: "qcall \<Rightarrow> ('a, 'e) env \<Rightarrow> ('a, 'e) env" where
  "logged c s = s\<lparr>calls := calls s @ [c]\<rparr>"

text \<open>Modelled from the spec: \<^verbatim>\<open>QFuture::isFinished\<close> (section 6), a query.\<close>

definition QFuture_isFinished :: "('a, 'e) env \<Rightarrow> bool \<times> ('a, 'e) env" where
  "QFuture_isFinished s = (stateFinished (fut s), logged CallIsFinished s)"

text \<open>Modelled from the spec: \<^verbatim>\<open>QFuture::isCanceled\<close> (section 6), a query.\<close>

definition QFuture_isCanceled :: "('a, 'e) env \<Rightarrow> bool \<times> ('a, 'e) env" where
  "QFuture_isCanceled s = (stateCanceled (fut s), logged CallIsCanceled s)"

text \<open>Modelled from the spec: \<^verbatim>\<open>QFuture::isResultReadyAt\<close> (section 6), a query.\<close>

definition QFuture_isResultReadyAt :: "nat \<Rightarrow> ('a, 'e) env \<Rightarrow> bool \<times> ('a, 'e) env" where
  "QFuture_isResultReadyAt i s = (resultStore (fut s) i \<noteq> None, logged (CallIsResultReadyAt i) s)"

text \<open>
  Modelled from the spec: \<^verbatim>\<open>QFuture::waitForFinished\<close>, the bounded synchronization call
  (sections 4.2 and 6). On a finished future it returns at once, and its only visible
  effect is to re-raise a failure the producer recorded; the header's own comment says
  the same (``it will re-throw the stored exception''). On a future that is not finished
  it blocks, and nothing in this model finishes the future meanwhile: \<open>None\<close>.
\<close>

definition QFuture_waitForFinished ::
    "('a, 'e) env \<Rightarrow> ('e exn + unit) option \<times> ('a, 'e) env" where
  "QFuture_waitForFinished s =
     ((if stateFinished (fut s)
       then Some (case exceptionStore (fut s) of
                    Some x \<Rightarrow> Inl (stored_exception x)
                  | None \<Rightarrow> Inr ())
       else None),
      logged CallWaitForFinished s)"

text \<open>
  Modelled from the spec: \<^verbatim>\<open>QFuture::result\<close> (section 6), a copy of the result in slot 0.
  With no result there the call has no defined value: \<open>None\<close>.
\<close>

definition QFuture_result :: "('a, 'e) env \<Rightarrow> 'a option \<times> ('a, 'e) env" where
  "QFuture_result s = (resultStore (fut s) 0, logged CallResult s)"

text \<open>
  Modelled from the spec: \<^verbatim>\<open>QFuture::takeResult\<close> (sections 4.2 and 6), the destructive
  accessor. The result in slot 0 is moved out of the shared state, which no longer holds
  it afterwards.
\<close>

definition QFuture_takeResult :: "('a, 'e) env \<Rightarrow> 'a option \<times> ('a, 'e) env" where
  "QFuture_takeResult s =
     (case resultStore (fut s) 0 of
        None \<Rightarrow> (None, logged CallTakeResult s)
      | Some v \<Rightarrow>
          (Some v,
           logged CallTakeResult
             (s\<lparr>fut := (fut s)\<lparr>resultStore := (resultStore (fut s))(0 := None)\<rparr>\<rparr>)))"

section \<open>The awaiters\<close>

text \<open>
  \<^verbatim>\<open>WaitForFinishedOperationBase::await_ready\<close>:
  \<^verbatim>\<open>return mFuture.isFinished() || mFuture.isCanceled();\<close>
  The second call is made only when the first returns false.
\<close>

definition await_ready :: "('a, 'e) env \<Rightarrow> bool \<times> ('a, 'e) env" where
  "await_ready s0 =
     (case QFuture_isFinished s0 of
        (fin, s1) \<Rightarrow> if fin then (True, s1) else QFuture_isCanceled s1)"

text \<open>
  \<^verbatim>\<open>WaitForFinishedOperationImplT::await_resume\<close>. The argument \<open>dflt\<close> stands for
  \<^verbatim>\<open>std::is_default_constructible_v<T>\<close>: \<open>Some d\<close> when \<^verbatim>\<open>T{}\<close> exists and is \<open>d\<close>,
  \<open>None\<close> when \<^verbatim>\<open>T\<close> has no default constructor. A result \<open>Inl\<close> is a throw, \<open>Inr\<close> a
  returned value; the outer \<open>None\<close> is a call that does not return.
\<close>

definition ImplT_await_resume ::
    "'a option \<Rightarrow> ('a, 'e) env \<Rightarrow> ('e exn + 'a) option \<times> ('a, 'e) env" where
  "ImplT_await_resume dflt s0 =
     (case QFuture_isFinished s0 of
        (fin, s1) \<Rightarrow>
          if fin then
            (case QFuture_waitForFinished s1 of
               (None, s2) \<Rightarrow> (None, s2)
             | (Some (Inl x), s2) \<Rightarrow> (Some (Inl x), s2)
             | (Some (Inr _), s2) \<Rightarrow>
                 (case QFuture_isResultReadyAt 0 s2 of
                    (rdy, s3) \<Rightarrow>
                      if \<not> rdy
                      then (Some (Inl (runtime_error ''QFuture finished without a result'')), s3)
                      else (case QFuture_result s3 of
                              (None, s4) \<Rightarrow> (None, s4)
                            | (Some v, s4) \<Rightarrow> (Some (Inr v), s4))))
          else
            (case dflt of
               Some d \<Rightarrow> (Some (Inr d), s1)
             | None \<Rightarrow> (Some (Inl (runtime_error ''QFuture was invalid or canceled'')), s1)))"

text \<open>\<^verbatim>\<open>WaitForFinishedOperationImplVoid::await_resume\<close>.\<close>

definition ImplVoid_await_resume ::
    "('a, 'e) env \<Rightarrow> ('e exn + unit) option \<times> ('a, 'e) env" where
  "ImplVoid_await_resume s0 =
     (case QFuture_isFinished s0 of
        (fin, s1) \<Rightarrow>
          if fin then QFuture_waitForFinished s1
          else (Some (Inr ()), s1))"

text \<open>
  \<^verbatim>\<open>TakeResultOperation::await_resume\<close>, the same text as the copying variant with
  \<^verbatim>\<open>takeResult()\<close> in the place of \<^verbatim>\<open>result()\<close>.
\<close>

definition TakeResult_await_resume ::
    "'a option \<Rightarrow> ('a, 'e) env \<Rightarrow> ('e exn + 'a) option \<times> ('a, 'e) env" where
  "TakeResult_await_resume dflt s0 =
     (case QFuture_isFinished s0 of
        (fin, s1) \<Rightarrow>
          if fin then
            (case QFuture_waitForFinished s1 of
               (None, s2) \<Rightarrow> (None, s2)
             | (Some (Inl x), s2) \<Rightarrow> (Some (Inl x), s2)
             | (Some (Inr _), s2) \<Rightarrow>
                 (case QFuture_isResultReadyAt 0 s2 of
                    (rdy, s3) \<Rightarrow>
                      if \<not> rdy
                      then (Some (Inl (runtime_error ''QFuture finished without a result'')), s3)
                      else (case QFuture_takeResult s3 of
                              (None, s4) \<Rightarrow> (None, s4)
                            | (Some v, s4) \<Rightarrow> (Some (Inr v), s4))))
          else
            (case dflt of
               Some d \<Rightarrow> (Some (Inr d), s1)
             | None \<Rightarrow> (Some (Inl (runtime_error ''QFuture was invalid or canceled'')), s1)))"

section \<open>Suspension: the watcher, the latch and the resume callback\<close>

text \<open>The two signals of \<^verbatim>\<open>QFutureWatcherBase\<close> that \<^verbatim>\<open>await_suspend\<close> connects to.\<close>

datatype channel = Finished | Canceled

text \<open>
  Where one invocation of the \<^verbatim>\<open>resume\<close> lambda stands: before the
  \<^verbatim>\<open>compare_exchange_strong\<close>, before each of the four statements that follow it, after
  the early \<^verbatim>\<open>return\<close>, or at the end of the body.
\<close>

datatype pc =
  AtCompareExchange | AtDisconnectFinished | AtDisconnectCanceled | AtDeleteLater
  | AtResume | ReturnedEarly | ReturnedAtEnd

text \<open>What an invocation does to the world outside the latch.\<close>

datatype effect = Disconnect channel | DeleteLater | Resume

text \<open>
  What \<^verbatim>\<open>await_suspend\<close> allocates and the lambda captures: the latch
  \<^verbatim>\<open>done\<close> (\<open>doneFlag\<close> here), the two connections \<^verbatim>\<open>finished\<close> and \<^verbatim>\<open>canceled\<close> (\<open>True\<close> while
  connected), the watcher (it stays allocated: \<^verbatim>\<open>deleteLater()\<close> only posts a request,
  counted here) and the coroutine handle (the calls of \<^verbatim>\<open>resume()\<close> on it are counted).
  \<open>invocations\<close> holds the program counter of every invocation of the lambda so far,
  \<open>effects\<close> every effect performed, with the index of the invocation that performed it.
\<close>

record suspension =
  doneFlag :: bool
  finishedConn :: bool
  canceledConn :: bool
  deleteLaterCalls :: nat
  resumeCalls :: nat
  invocations :: "pc list"
  effects :: "(nat \<times> effect) list"

definition at_pc :: "nat \<Rightarrow> pc \<Rightarrow> suspension \<Rightarrow> suspension" where
  "at_pc i p s = s\<lparr>invocations := (invocations s)[i := p]\<rparr>"

definition performs :: "nat \<Rightarrow> effect \<Rightarrow> suspension \<Rightarrow> suspension" where
  "performs i x s = s\<lparr>effects := effects s @ [(i, x)]\<rparr>"

text \<open>
  One statement of invocation \<open>i\<close> of the \<^verbatim>\<open>resume\<close> lambda. The compare-exchange is
  one atomic step; any other invocation may run between two statements. The result says
  whether the statement was \<^verbatim>\<open>awaitingCoroutine.resume()\<close>.
\<close>

definition resume_lambda :: "nat \<Rightarrow> suspension \<Rightarrow> bool \<times> suspension" where
  "resume_lambda i s =
     (if i < length (invocations s) then
        (case invocations s ! i of
           AtCompareExchange \<Rightarrow>
             if doneFlag s then (False, at_pc i ReturnedEarly s)
             else (False, at_pc i AtDisconnectFinished (s\<lparr>doneFlag := True\<rparr>))
         | AtDisconnectFinished \<Rightarrow>
             (False, at_pc i AtDisconnectCanceled
                       (performs i (Disconnect Finished) (s\<lparr>finishedConn := False\<rparr>)))
         | AtDisconnectCanceled \<Rightarrow>
             (False, at_pc i AtDeleteLater
                       (performs i (Disconnect Canceled) (s\<lparr>canceledConn := False\<rparr>)))
         | AtDeleteLater \<Rightarrow>
             (False, at_pc i AtResume
                       (performs i DeleteLater (s\<lparr>deleteLaterCalls := Suc (deleteLaterCalls s)\<rparr>)))
         | AtResume \<Rightarrow>
             (True, at_pc i ReturnedAtEnd
                      (performs i Resume (s\<lparr>resumeCalls := Suc (resumeCalls s)\<rparr>)))
         | ReturnedEarly \<Rightarrow> (False, s)
         | ReturnedAtEnd \<Rightarrow> (False, s))
      else (False, s))"

text \<open>
  The watcher emits a signal: the lambda is invoked if the connection of that signal is
  still there, and the new invocation stands before its compare-exchange.
\<close>

definition connected :: "channel \<Rightarrow> suspension \<Rightarrow> bool" where
  "connected ch s = (case ch of Finished \<Rightarrow> finishedConn s | Canceled \<Rightarrow> canceledConn s)"

definition emit :: "channel \<Rightarrow> suspension \<Rightarrow> suspension" where
  "emit ch s =
     (if connected ch s then s\<lparr>invocations := invocations s @ [AtCompareExchange]\<rparr> else s)"

text \<open>
  The state \<^verbatim>\<open>await_suspend\<close> leaves behind: a new watcher, the latch \<^verbatim>\<open>false\<close>, both
  signals connected to the lambda, the watcher set on the future.
\<close>

definition fresh_suspension :: suspension where
  "fresh_suspension =
     \<lparr>doneFlag = False, finishedConn = True, canceledConn = True, deleteLaterCalls = 0,
      resumeCalls = 0, invocations = [], effects = []\<rparr>"

section \<open>The coroutine and the entry points\<close>

text \<open>
  The shape of \<^verbatim>\<open>T\<close>: \<^verbatim>\<open>void\<close>, or a value type with its default value if it has one.
\<close>

datatype 'a result_type = VoidType | ValueType "'a option"

text \<open>The awaiter a coroutine is suspended on, with what was fixed at compile time.\<close>

datatype 'a awaiter = WaitForFinishedOperation "'a result_type" | TakeResultOperation "'a option"

datatype 'a co_value = NoValue | Value 'a

type_synonym ('a, 'e) outcome = "('e exn + 'a co_value) option"

text \<open>
  \<^verbatim>\<open>WaitForFinishedOperation\<close> is \<^verbatim>\<open>std::conditional_t<std::is_void_v<T>,
  WaitForFinishedOperationImplVoid, WaitForFinishedOperationImplT>\<close>.
\<close>

definition awaiter_await_resume ::
    "'a awaiter \<Rightarrow> ('a, 'e) env \<Rightarrow> ('a, 'e) outcome \<times> ('a, 'e) env" where
  "awaiter_await_resume aw s =
     (case aw of
        WaitForFinishedOperation VoidType \<Rightarrow>
          (case ImplVoid_await_resume s of
             (r, s') \<Rightarrow> (map_option (map_sum id (\<lambda>_. NoValue)) r, s'))
      | WaitForFinishedOperation (ValueType dflt) \<Rightarrow>
          (case ImplT_await_resume dflt s of
             (r, s') \<Rightarrow> (map_option (map_sum id Value) r, s'))
      | TakeResultOperation dflt \<Rightarrow>
          (case TakeResult_await_resume dflt s of
             (r, s') \<Rightarrow> (map_option (map_sum id Value) r, s')))"

text \<open>
  One await operation and its surroundings: the future with the log of calls on it, what
  \<^verbatim>\<open>await_suspend\<close> allocated (\<open>None\<close> as long as it has not run: no watcher, no latch,
  no connection), the awaiter the coroutine is suspended on (\<open>None\<close> when it is not
  suspended), and what the coroutine got from \<^verbatim>\<open>await_resume\<close>.
\<close>

record ('a, 'e) world =
  wenv :: "('a, 'e) env"
  suspended :: "suspension option"
  awaiting :: "'a awaiter option"
  returned :: "('a, 'e) outcome list"

text \<open>\<^verbatim>\<open>WaitForFinishedOperationBase::await_suspend\<close>.\<close>

definition await_suspend :: "('a, 'e) world \<Rightarrow> ('a, 'e) world" where
  "await_suspend w = w\<lparr>suspended := Some fresh_suspension\<rparr>"

definition resume_extraction :: "'a awaiter \<Rightarrow> ('a, 'e) world \<Rightarrow> ('a, 'e) world" where
  "resume_extraction aw w =
     (case awaiter_await_resume aw (wenv w) of
        (r, s') \<Rightarrow> w\<lparr>wenv := s', awaiting := None, returned := returned w @ [r]\<rparr>)"

text \<open>
  Modelled from the spec: the coroutine runtime's \<^verbatim>\<open>co_await\<close> (section 4.1, the
  three-phase protocol; \<^verbatim>\<open>qcorotask.h\<close> and the language are not part of the header).
  The ready-check runs first; if it is true the extraction follows at once and
  \<^verbatim>\<open>await_suspend\<close> is not called; otherwise the coroutine is suspended and
  \<^verbatim>\<open>await_suspend\<close> runs.
\<close>

definition co_await :: "'a awaiter \<Rightarrow> ('a, 'e) world \<Rightarrow> ('a, 'e) world" where
  "co_await aw w =
     (case await_ready (wenv w) of
        (rdy, s1) \<Rightarrow>
          if rdy then resume_extraction aw (w\<lparr>wenv := s1\<rparr>)
          else await_suspend (w\<lparr>wenv := s1, awaiting := Some aw\<rparr>))"

text \<open>
  Modelled from the spec: \<^verbatim>\<open>std::coroutine_handle<>::resume\<close> on the suspended coroutine
  (section 4.1, resume-extraction): the coroutine continues with \<^verbatim>\<open>await_resume\<close> of the
  awaiter it was suspended on.
\<close>

definition coroutine_resume :: "('a, 'e) world \<Rightarrow> ('a, 'e) world" where
  "coroutine_resume w = (case awaiting w of None \<Rightarrow> w | Some aw \<Rightarrow> resume_extraction aw w)"

text \<open>
  What happens around a suspended await: the producer changes the future, the watcher
  emits one of its signals, or one invocation of the lambda executes its next statement.
\<close>

datatype ('a, 'e) event = Produce "('a, 'e) QFuture" | Emit channel | Step nat

definition step :: "('a, 'e) event \<Rightarrow> ('a, 'e) world \<Rightarrow> ('a, 'e) world" where
  "step ev w =
     (case ev of
        Produce f \<Rightarrow> w\<lparr>wenv := (wenv w)\<lparr>fut := f\<rparr>\<rparr>
      | Emit ch \<Rightarrow> w\<lparr>suspended := map_option (emit ch) (suspended w)\<rparr>
      | Step i \<Rightarrow>
          (case suspended w of
             None \<Rightarrow> w
           | Some s \<Rightarrow>
               (case resume_lambda i s of
                  (resumes, s') \<Rightarrow>
                    if resumes then coroutine_resume (w\<lparr>suspended := Some s'\<rparr>)
                    else w\<lparr>suspended := Some s'\<rparr>)))"

fun run :: "('a, 'e) event list \<Rightarrow> ('a, 'e) world \<Rightarrow> ('a, 'e) world" where
  "run [] w = w"
| "run (ev # evs) w = run evs (step ev w)"

text \<open>\<^verbatim>\<open>qCoro(f)\<close>: the wrapper around the future, nothing awaited yet.\<close>

definition QCoroFuture :: "('a, 'e) QFuture \<Rightarrow> ('a, 'e) world" where
  "QCoroFuture f =
     \<lparr>wenv = \<lparr>fut = f, calls = []\<rparr>, suspended = None, awaiting = None, returned = []\<rparr>"

text \<open>\<^verbatim>\<open>QCoroFuture::waitForFinished\<close>: \<^verbatim>\<open>co_return co_await WaitForFinishedOperation{mFuture};\<close>\<close>

definition QCoroFuture_waitForFinished ::
    "'a result_type \<Rightarrow> ('a, 'e) QFuture \<Rightarrow> ('a, 'e) world" where
  "QCoroFuture_waitForFinished rt f = co_await (WaitForFinishedOperation rt) (QCoroFuture f)"

text \<open>\<^verbatim>\<open>QCoroFuture::result\<close>: \<^verbatim>\<open>co_return co_await WaitForFinishedOperation{mFuture};\<close>\<close>

definition QCoroFuture_result ::
    "'a result_type \<Rightarrow> ('a, 'e) QFuture \<Rightarrow> ('a, 'e) world" where
  "QCoroFuture_result rt f = co_await (WaitForFinishedOperation rt) (QCoroFuture f)"

text \<open>
  \<^verbatim>\<open>QCoroFuture::takeResult\<close>, declared \<^verbatim>\<open>requires (!std::is_void_v<T>)\<close>: for \<^verbatim>\<open>void\<close>
  there is no such member (\<open>None\<close>). The header compiles it from Qt 6 on, where
  \<^verbatim>\<open>QFuture::takeResult\<close> exists; that is the configuration modelled.
\<close>

definition QCoroFuture_takeResult ::
    "'a result_type \<Rightarrow> ('a, 'e) QFuture \<Rightarrow> ('a, 'e) world option" where
  "QCoroFuture_takeResult rt f =
     (case rt of
        VoidType \<Rightarrow> None
      | ValueType dflt \<Rightarrow> Some (co_await (TakeResultOperation dflt) (QCoroFuture f)))"

section \<open>Invariants of a suspended await\<close>

text \<open>
  An invocation has won the latch when it is past the compare-exchange and did not take
  the early \<^verbatim>\<open>return\<close>.
\<close>

definition won :: "pc \<Rightarrow> bool" where
  "won p = (p \<noteq> AtCompareExchange \<and> p \<noteq> ReturnedEarly)"

text \<open>The effects an invocation has performed when it stands at a program counter.\<close>

fun performed_before :: "pc \<Rightarrow> effect list" where
  "performed_before AtCompareExchange = []"
| "performed_before ReturnedEarly = []"
| "performed_before AtDisconnectFinished = []"
| "performed_before AtDisconnectCanceled = [Disconnect Finished]"
| "performed_before AtDeleteLater = [Disconnect Finished, Disconnect Canceled]"
| "performed_before AtResume = [Disconnect Finished, Disconnect Canceled, DeleteLater]"
| "performed_before ReturnedAtEnd = [Disconnect Finished, Disconnect Canceled, DeleteLater, Resume]"

text \<open>The statements of the lambda after the latch, in the order of the source.\<close>

definition teardown_then_resume :: "effect list" where
  "teardown_then_resume = [Disconnect Finished, Disconnect Canceled, DeleteLater, Resume]"

text \<open>
  The connections and the two counters are what the logged effects made them: nothing
  else disconnects, posts a deletion or resumes.
\<close>

definition accounted :: "suspension \<Rightarrow> bool" where
  "accounted s =
     (finishedConn s = (Disconnect Finished \<notin> snd ` set (effects s))
      \<and> canceledConn s = (Disconnect Canceled \<notin> snd ` set (effects s))
      \<and> deleteLaterCalls s = length (filter (\<lambda>e. snd e = DeleteLater) (effects s))
      \<and> resumeCalls s = length (filter (\<lambda>e. snd e = Resume) (effects s)))"

text \<open>
  While the latch is \<^verbatim>\<open>false\<close> every invocation stands before its compare-exchange and
  nothing has been done; once it is \<^verbatim>\<open>true\<close> one invocation has won, no other has, and
  every logged effect is the winner's, up to where it stands.
\<close>

definition single_winner :: "suspension \<Rightarrow> bool" where
  "single_winner s =
     (if doneFlag s
      then \<exists>i < length (invocations s).
             won (invocations s ! i)
             \<and> (\<forall>j < length (invocations s). j \<noteq> i \<longrightarrow> \<not> won (invocations s ! j))
             \<and> effects s = map (Pair i) (performed_before (invocations s ! i))
      else (\<forall>p \<in> set (invocations s). p = AtCompareExchange) \<and> effects s = [])"

text \<open>
  A suspended await: the suspension exists and satisfies both invariants, the coroutine
  got one result per call of \<^verbatim>\<open>resume()\<close>, and it is still suspended as long as
  \<^verbatim>\<open>resume()\<close> has not been called.
\<close>

definition coherent :: "('a, 'e) world \<Rightarrow> bool" where
  "coherent w =
     (case suspended w of
        None \<Rightarrow> False
      | Some s \<Rightarrow>
          accounted s \<and> single_winner s \<and> length (returned w) = resumeCalls s
          \<and> (awaiting w = None) = (0 < resumeCalls s))"

text \<open>
  How many statements an invocation still has before it, at most: five before the
  compare-exchange, none once it has returned.
\<close>

fun steps_left :: "pc \<Rightarrow> nat" where
  "steps_left AtCompareExchange = 5"
| "steps_left AtDisconnectFinished = 4"
| "steps_left AtDisconnectCanceled = 3"
| "steps_left AtDeleteLater = 2"
| "steps_left AtResume = 1"
| "steps_left ReturnedEarly = 0"
| "steps_left ReturnedAtEnd = 0"

text \<open>Every one of the first \<open>n\<close> invocations is given five steps, one invocation after the other.\<close>

definition run_to_end :: "nat \<Rightarrow> ('a, 'e) event list" where
  "run_to_end n = concat (map (\<lambda>i. replicate 5 (Step i)) [0..<n])"

section \<open>Futures used as concrete inputs\<close>

text \<open>
  A finished future with \<open>r\<close> in slot 0 and the recorded failure \<open>x\<close>, a future canceled
  before it finished, a pending future, and a future on which nothing has been called yet.
\<close>

definition finished_with :: "'a option \<Rightarrow> 'e option \<Rightarrow> ('a, 'e) QFuture" where
  "finished_with r x =
     \<lparr>stateFinished = True, stateCanceled = False,
      resultStore = (\<lambda>i. if i = 0 then r else None), exceptionStore = x\<rparr>"

definition canceled_unfinished :: "('a, 'e) QFuture" where
  "canceled_unfinished =
     \<lparr>stateFinished = False, stateCanceled = True,
      resultStore = (\<lambda>i. None), exceptionStore = None\<rparr>"

definition pending :: "('a, 'e) QFuture" where
  "pending =
     \<lparr>stateFinished = False, stateCanceled = False,
      resultStore = (\<lambda>i. None), exceptionStore = None\<rparr>"

definition called :: "('a, 'e) QFuture \<Rightarrow> ('a, 'e) env" where
  "called f = \<lparr>fut = f, calls = []\<rparr>"

text \<open>
  Both signals are emitted before either invocation runs, the producer finishes the
  future with 7, and the two invocations run interleaved to their ends.
\<close>

definition both_fire :: "(int, string) event list" where
  "both_fire =
     [Emit Finished, Emit Canceled, Produce (finished_with (Some 7) None),
      Step 1, Step 0, Step 1, Step 1, Step 1, Step 1]"

text \<open>
  The future is canceled, the canceled signal is emitted and its invocation runs up to
  the call of \<^verbatim>\<open>resume()\<close>, which it has not made yet.
\<close>

definition about_to_resume :: "(int, string) event list" where
  "about_to_resume = [Produce canceled_unfinished, Emit Canceled, Step 0, Step 0, Step 0, Step 0]"

text \<open>
  The canceled signal is emitted and the producer cancels the future; the invocation has
  not run yet.
\<close>

definition one_fires :: "(int, string) event list" where
  "one_fires = [Emit Canceled, Produce canceled_unfinished]"

section \<open>What each awaiter computes\<close>

lemmas qfuture_defs =
  QFuture_isFinished_def QFuture_isCanceled_def QFuture_isResultReadyAt_def
  QFuture_waitForFinished_def QFuture_result_def QFuture_takeResult_def logged_def

lemmas sample_defs = finished_with_def canceled_unfinished_def pending_def called_def

lemma await_ready_eq:
  "await_ready s =
     (if stateFinished (fut s) then (True, s\<lparr>calls := calls s @ [CallIsFinished]\<rparr>)
      else (stateCanceled (fut s), s\<lparr>calls := calls s @ [CallIsFinished, CallIsCanceled]\<rparr>))"
  by (simp add: await_ready_def qfuture_defs)

lemma ImplT_await_resume_finished:
  "stateFinished (fut s) \<Longrightarrow>
   ImplT_await_resume dflt s =
     (case exceptionStore (fut s) of
        Some x \<Rightarrow> (Some (Inl (stored_exception x)),
                   s\<lparr>calls := calls s @ [CallIsFinished, CallWaitForFinished]\<rparr>)
      | None \<Rightarrow>
          (case resultStore (fut s) 0 of
             Some v \<Rightarrow> (Some (Inr v),
                        s\<lparr>calls := calls s @ [CallIsFinished, CallWaitForFinished,
                                               CallIsResultReadyAt 0, CallResult]\<rparr>)
           | None \<Rightarrow> (Some (Inl ResultNotReady),
                      s\<lparr>calls := calls s @ [CallIsFinished, CallWaitForFinished,
                                             CallIsResultReadyAt 0]\<rparr>)))"
  by (simp add: ImplT_await_resume_def qfuture_defs ResultNotReady_def split: option.splits)

lemma ImplT_await_resume_unfinished:
  "\<not> stateFinished (fut s) \<Longrightarrow>
   ImplT_await_resume dflt s =
     ((case dflt of Some d \<Rightarrow> Some (Inr d) | None \<Rightarrow> Some (Inl InvalidOrCanceled)),
      s\<lparr>calls := calls s @ [CallIsFinished]\<rparr>)"
  by (simp add: ImplT_await_resume_def qfuture_defs InvalidOrCanceled_def split: option.splits)

lemma TakeResult_await_resume_finished:
  "stateFinished (fut s) \<Longrightarrow>
   TakeResult_await_resume dflt s =
     (case exceptionStore (fut s) of
        Some x \<Rightarrow> (Some (Inl (stored_exception x)),
                   s\<lparr>calls := calls s @ [CallIsFinished, CallWaitForFinished]\<rparr>)
      | None \<Rightarrow>
          (case resultStore (fut s) 0 of
             Some v \<Rightarrow> (Some (Inr v),
                        s\<lparr>fut := (fut s)\<lparr>resultStore := (resultStore (fut s))(0 := None)\<rparr>,
                          calls := calls s @ [CallIsFinished, CallWaitForFinished,
                                               CallIsResultReadyAt 0, CallTakeResult]\<rparr>)
           | None \<Rightarrow> (Some (Inl ResultNotReady),
                      s\<lparr>calls := calls s @ [CallIsFinished, CallWaitForFinished,
                                             CallIsResultReadyAt 0]\<rparr>)))"
  by (simp add: TakeResult_await_resume_def qfuture_defs ResultNotReady_def split: option.splits)

lemma TakeResult_await_resume_unfinished:
  "\<not> stateFinished (fut s) \<Longrightarrow>
   TakeResult_await_resume dflt s =
     ((case dflt of Some d \<Rightarrow> Some (Inr d) | None \<Rightarrow> Some (Inl InvalidOrCanceled)),
      s\<lparr>calls := calls s @ [CallIsFinished]\<rparr>)"
  by (simp add: TakeResult_await_resume_def qfuture_defs InvalidOrCanceled_def split: option.splits)

lemma ImplVoid_await_resume_eq:
  "ImplVoid_await_resume s =
     (if stateFinished (fut s)
      then ((case exceptionStore (fut s) of
               Some x \<Rightarrow> Some (Inl (stored_exception x))
             | None \<Rightarrow> Some (Inr ())),
            s\<lparr>calls := calls s @ [CallIsFinished, CallWaitForFinished]\<rparr>)
      else (Some (Inr ()), s\<lparr>calls := calls s @ [CallIsFinished]\<rparr>))"
  by (simp add: ImplVoid_await_resume_def qfuture_defs split: option.splits)

lemma fut_await_ready: "fut (snd (await_ready s)) = fut s"
  by (simp add: await_ready_eq)

lemma fut_ImplT_await_resume: "fut (snd (ImplT_await_resume dflt s)) = fut s"
  by (cases "stateFinished (fut s)")
     (simp_all add: ImplT_await_resume_finished ImplT_await_resume_unfinished
        split: option.splits)

lemma fut_ImplVoid_await_resume: "fut (snd (ImplVoid_await_resume s)) = fut s"
  by (simp add: ImplVoid_await_resume_eq)

lemma fst_TakeResult_await_resume:
  "fst (TakeResult_await_resume dflt s) = fst (ImplT_await_resume dflt s)"
  by (cases "stateFinished (fut s)")
     (simp_all add: ImplT_await_resume_finished ImplT_await_resume_unfinished
        TakeResult_await_resume_finished TakeResult_await_resume_unfinished
        split: option.splits)

section \<open>Extraction on a future that did not finish\<close>

text \<open>
  C5. For a non-void result type, when extraction runs on a future that is not finished
  (canceled or invalidated before completing): with a default-constructible \<^verbatim>\<open>T\<close> the
  operation returns the default-constructed value and raises nothing; with a \<^verbatim>\<open>T\<close> that
  has no default constructor it fails with InvalidOrCanceled. Only \<^verbatim>\<open>isFinished\<close> is
  called on the future.
\<close>

theorem copy_result_not_finished:
  "\<not> stateFinished (fut s) \<Longrightarrow>
   ImplT_await_resume (Some d) s = (Some (Inr d), s\<lparr>calls := calls s @ [CallIsFinished]\<rparr>)
   \<and> ImplT_await_resume None s =
       (Some (Inl InvalidOrCanceled), s\<lparr>calls := calls s @ [CallIsFinished]\<rparr>)"
  by (simp add: ImplT_await_resume_unfinished)

theorem copy_result_not_finished_witness:
  "\<not> stateFinished (fut (called (canceled_unfinished :: (int, string) QFuture)))
   \<and> fst (ImplT_await_resume (Some 0) (called (canceled_unfinished :: (int, string) QFuture)))
       = Some (Inr 0)
   \<and> fst (ImplT_await_resume None (called (canceled_unfinished :: (int, string) QFuture)))
       = Some (Inl InvalidOrCanceled)"
  using copy_result_not_finished [of "called (canceled_unfinished :: (int, string) QFuture)" 0]
  by (simp add: sample_defs)

section \<open>The ready-check\<close>

lemma suspended_step_None: "suspended w = None \<Longrightarrow> suspended (step ev w) = None"
  by (cases ev) (simp_all add: step_def)

lemma suspended_run_None: "suspended w = None \<Longrightarrow> suspended (run evs w) = None"
  by (induction evs arbitrary: w) (simp_all add: suspended_step_None)

lemma suspended_resume_extraction: "suspended (resume_extraction aw w) = suspended w"
  by (simp add: resume_extraction_def split: prod.splits)

lemma co_await_ready:
  "fst (await_ready (wenv w)) \<Longrightarrow>
   co_await aw w = resume_extraction aw (w\<lparr>wenv := snd (await_ready (wenv w))\<rparr>)"
  by (cases "await_ready (wenv w)") (simp add: co_await_def)

lemma co_await_not_ready:
  "\<not> fst (await_ready (wenv w)) \<Longrightarrow>
   co_await aw w =
     w\<lparr>wenv := snd (await_ready (wenv w)), suspended := Some fresh_suspension,
       awaiting := Some aw\<rparr>"
  by (cases "await_ready (wenv w)") (simp add: co_await_def await_suspend_def)

text \<open>
  C2. The ready-check returns true if and only if the future is already finished or already
  canceled. Whenever it returns true, \<^verbatim>\<open>co_await\<close> allocates nothing (what
  \<^verbatim>\<open>await_suspend\<close> would create stays as it was), the coroutine is not suspended and the
  extraction runs at once; from the wrapper of a finished or canceled future no watcher
  and no connection ever comes into being, whatever happens afterwards.
\<close>

theorem ready_check:
  "(fst (await_ready s) \<longleftrightarrow> stateFinished (fut s) \<or> stateCanceled (fut s))
   \<and> (fst (await_ready (wenv w)) \<longrightarrow>
        suspended (co_await aw w) = suspended w
        \<and> awaiting (co_await aw w) = None
        \<and> returned (co_await aw w) =
            returned w @ [fst (awaiter_await_resume aw (snd (await_ready (wenv w))))])
   \<and> (stateFinished f \<or> stateCanceled f \<longrightarrow>
        suspended (run evs (co_await aw (QCoroFuture f))) = None)"
proof (intro conjI impI)
  show "fst (await_ready s) \<longleftrightarrow> stateFinished (fut s) \<or> stateCanceled (fut s)"
    by (simp add: await_ready_eq)
next
  assume r: "fst (await_ready (wenv w))"
  show "suspended (co_await aw w) = suspended w"
    by (simp add: co_await_ready [OF r] suspended_resume_extraction)
  show "awaiting (co_await aw w) = None"
    by (simp add: co_await_ready [OF r] resume_extraction_def split: prod.splits)
  show "returned (co_await aw w) =
          returned w @ [fst (awaiter_await_resume aw (snd (await_ready (wenv w))))]"
    by (simp add: co_await_ready [OF r] resume_extraction_def split: prod.splits)
next
  assume "stateFinished f \<or> stateCanceled f"
  then have r: "fst (await_ready (wenv (QCoroFuture f)))"
    by (auto simp add: await_ready_eq QCoroFuture_def)
  have "suspended (co_await aw (QCoroFuture f)) = None"
    by (simp add: co_await_ready [OF r] suspended_resume_extraction) (simp add: QCoroFuture_def)
  then show "suspended (run evs (co_await aw (QCoroFuture f))) = None"
    by (rule suspended_run_None)
qed

theorem ready_check_witness:
  "fst (await_ready (called (finished_with (Some 42) None :: (int, string) QFuture)))
   \<and> fst (await_ready (called (canceled_unfinished :: (int, string) QFuture)))
   \<and> \<not> fst (await_ready (called (pending :: (int, string) QFuture)))
   \<and> suspended (QCoroFuture_result (ValueType (Some 0))
                   (finished_with (Some 42) None :: (int, string) QFuture)) = None
   \<and> returned (QCoroFuture_result (ValueType (Some 0))
                  (finished_with (Some 42) None :: (int, string) QFuture)) = [Some (Inr (Value 42))]
   \<and> suspended (run [Emit Finished, Step 0, Emit Canceled]
                   (QCoroFuture_result (ValueType (Some 0))
                      (canceled_unfinished :: (int, string) QFuture))) = None"
  using ready_check [of "called (finished_with (Some 42) None :: (int, string) QFuture)"
      "QCoroFuture (finished_with (Some 42) None :: (int, string) QFuture)"
      "WaitForFinishedOperation (ValueType (Some 0))"
      "canceled_unfinished :: (int, string) QFuture" "[Emit Finished, Step 0, Emit Canceled]"]
    ready_check [of "called (canceled_unfinished :: (int, string) QFuture)"
      "QCoroFuture (finished_with (Some 42) None :: (int, string) QFuture)"
      "WaitForFinishedOperation (ValueType (Some 0))"
      "canceled_unfinished :: (int, string) QFuture" "[]"]
    ready_check [of "called (pending :: (int, string) QFuture)"
      "QCoroFuture (finished_with (Some 42) None :: (int, string) QFuture)"
      "WaitForFinishedOperation (ValueType (Some 0))"
      "canceled_unfinished :: (int, string) QFuture" "[]"]
  by (simp add: sample_defs QCoroFuture_result_def QCoroFuture_def await_ready_eq
      awaiter_await_resume_def ImplT_await_resume_finished)

section \<open>Extraction on a finished future\<close>

text \<open>
  C4, as the code has it. For a non-void result type, copy-result extraction on a finished
  future first calls \<^verbatim>\<open>waitForFinished\<close>, which re-raises a failure the producer recorded.
  When no failure was recorded: with a result in slot 0 the extraction returns a copy of
  it; with no result there it fails with ResultNotReady, whether \<^verbatim>\<open>T\<close> is
  default-constructible or not. The future is left as it was.
\<close>

theorem copy_result_finished:
  "stateFinished (fut s) \<Longrightarrow>
   ImplT_await_resume dflt s =
     (case exceptionStore (fut s) of
        Some x \<Rightarrow> (Some (Inl (stored_exception x)),
                   s\<lparr>calls := calls s @ [CallIsFinished, CallWaitForFinished]\<rparr>)
      | None \<Rightarrow>
          (case resultStore (fut s) 0 of
             Some v \<Rightarrow> (Some (Inr v),
                        s\<lparr>calls := calls s @ [CallIsFinished, CallWaitForFinished,
                                               CallIsResultReadyAt 0, CallResult]\<rparr>)
           | None \<Rightarrow> (Some (Inl ResultNotReady),
                      s\<lparr>calls := calls s @ [CallIsFinished, CallWaitForFinished,
                                             CallIsResultReadyAt 0]\<rparr>)))"
  by (rule ImplT_await_resume_finished)

theorem copy_result_finished_witness:
  "stateFinished (fut (called (finished_with (Some 42) None :: (int, string) QFuture)))
   \<and> fst (ImplT_await_resume None (called (finished_with (Some 42) None :: (int, string) QFuture)))
       = Some (Inr 42)
   \<and> fst (ImplT_await_resume (Some 0) (called (finished_with None None :: (int, string) QFuture)))
       = Some (Inl ResultNotReady)
   \<and> fst (ImplT_await_resume None (called (finished_with None None :: (int, string) QFuture)))
       = Some (Inl ResultNotReady)"
  using copy_result_finished [of "called (finished_with (Some 42) None :: (int, string) QFuture)" None]
    copy_result_finished [of "called (finished_with None None :: (int, string) QFuture)" "Some 0"]
    copy_result_finished [of "called (finished_with None None :: (int, string) QFuture)" None]
  by (simp add: sample_defs)

text \<open>
  C4 as stated fails on a finished future with no result in which the producer recorded a
  failure: the extraction raises that failure, not ResultNotReady.
\<close>

theorem copy_result_finished_counterexample:
  "stateFinished (fut (called (finished_with None (Some ''E'') :: (int, string) QFuture)))
   \<and> resultStore (fut (called (finished_with None (Some ''E'') :: (int, string) QFuture))) 0 = None
   \<and> fst (ImplT_await_resume (Some 0) (called (finished_with None (Some ''E'') :: (int, string) QFuture)))
       = Some (Inl (stored_exception ''E''))
   \<and> fst (ImplT_await_resume (Some 0) (called (finished_with None (Some ''E'') :: (int, string) QFuture)))
       \<noteq> Some (Inl ResultNotReady)"
  by (simp add: ImplT_await_resume_finished sample_defs ResultNotReady_def)

text \<open>
  C8. For a void result type, extraction on a finished future calls \<^verbatim>\<open>waitForFinished\<close>
  once; a failure the producer recorded is raised, once, and with no recorded failure the
  operation completes normally and produces no value. The future is left as it was.
\<close>

theorem void_finished:
  "stateFinished (fut s) \<Longrightarrow>
   ImplVoid_await_resume s =
     ((case exceptionStore (fut s) of
         Some x \<Rightarrow> Some (Inl (stored_exception x))
       | None \<Rightarrow> Some (Inr ())),
      s\<lparr>calls := calls s @ [CallIsFinished, CallWaitForFinished]\<rparr>)
   \<and> returned (QCoroFuture_waitForFinished VoidType (fut s)) =
       [case exceptionStore (fut s) of
          Some x \<Rightarrow> Some (Inl (stored_exception x))
        | None \<Rightarrow> Some (Inr NoValue)]"
  by (simp add: ImplVoid_await_resume_eq QCoroFuture_waitForFinished_def co_await_def
      await_ready_eq resume_extraction_def awaiter_await_resume_def QCoroFuture_def
      split: option.splits)

theorem void_finished_witness:
  "stateFinished (fut (called (finished_with None (Some ''E'') :: (unit, string) QFuture)))
   \<and> ImplVoid_await_resume (called (finished_with None (Some ''E'') :: (unit, string) QFuture)) =
       (Some (Inl (stored_exception ''E'')),
        \<lparr>fut = finished_with None (Some ''E''), calls = [CallIsFinished, CallWaitForFinished]\<rparr>)
   \<and> returned (QCoroFuture_waitForFinished VoidType
                  (finished_with None (Some ''E'') :: (unit, string) QFuture)) =
       [Some (Inl (stored_exception ''E''))]
   \<and> ImplVoid_await_resume (called (finished_with None None :: (unit, string) QFuture)) =
       (Some (Inr ()),
        \<lparr>fut = finished_with None None, calls = [CallIsFinished, CallWaitForFinished]\<rparr>)"
  using void_finished [of "called (finished_with None (Some ''E'') :: (unit, string) QFuture)"]
    void_finished [of "called (finished_with None None :: (unit, string) QFuture)"]
  by (simp add: sample_defs)

text \<open>
  C10. For a void result type, extraction on a future that was canceled or invalidated
  without finishing returns normally: nothing is raised, \<^verbatim>\<open>waitForFinished\<close> is not
  called, and the future is left as it was.
\<close>

theorem void_not_finished:
  "\<not> stateFinished (fut s) \<Longrightarrow>
   ImplVoid_await_resume s = (Some (Inr ()), s\<lparr>calls := calls s @ [CallIsFinished]\<rparr>)
   \<and> CallWaitForFinished \<notin> set (drop (length (calls s)) (calls (snd (ImplVoid_await_resume s))))
   \<and> fut (snd (ImplVoid_await_resume s)) = fut s"
  by (simp add: ImplVoid_await_resume_eq)

theorem void_not_finished_witness:
  "\<not> stateFinished (fut (called (canceled_unfinished :: (unit, string) QFuture)))
   \<and> ImplVoid_await_resume (called (canceled_unfinished :: (unit, string) QFuture))
       = (Some (Inr ()), \<lparr>fut = canceled_unfinished, calls = [CallIsFinished]\<rparr>)"
  using void_not_finished [of "called (canceled_unfinished :: (unit, string) QFuture)"]
  by (simp add: sample_defs)

section \<open>The entry points\<close>

text \<open>
  C6. \<^verbatim>\<open>waitForFinished()\<close> and \<^verbatim>\<open>result()\<close> are the same operation: both await the same
  awaiter over the same future (the void variant for \<^verbatim>\<open>void\<close>, the copy-result variant
  otherwise), so they agree at once and after every sequence of events.
\<close>

theorem entry_points_equal:
  "QCoroFuture_waitForFinished rt f = QCoroFuture_result rt f
   \<and> run evs (QCoroFuture_waitForFinished rt f) = run evs (QCoroFuture_result rt f)
   \<and> awaiter_await_resume (WaitForFinishedOperation VoidType) s =
       (map_option (map_sum id (\<lambda>_. NoValue)) (fst (ImplVoid_await_resume s)),
        snd (ImplVoid_await_resume s))
   \<and> awaiter_await_resume (WaitForFinishedOperation (ValueType dflt)) s =
       (map_option (map_sum id Value) (fst (ImplT_await_resume dflt s)),
        snd (ImplT_await_resume dflt s))"
  by (simp add: QCoroFuture_waitForFinished_def QCoroFuture_result_def
      awaiter_await_resume_def split: prod.splits)

text \<open>
  C7, as the code has it. \<^verbatim>\<open>takeResult()\<close> awaits the move-result variant, which raises
  and returns exactly what the copy-result variant does in every state of the future: a
  failure the producer recorded is re-raised first; with none recorded, a finished future
  with a result gives that result, taken with \<^verbatim>\<open>QFuture::takeResult\<close> so that it is moved
  out of the future, and a finished future without a result gives ResultNotReady; a future
  that is not finished gives the default value or InvalidOrCanceled. For \<^verbatim>\<open>void\<close> the
  entry point does not exist.
\<close>

theorem take_result_rules:
  "fst (TakeResult_await_resume dflt s) = fst (ImplT_await_resume dflt s)
   \<and> (stateFinished (fut s) \<longrightarrow>
        TakeResult_await_resume dflt s =
          (case exceptionStore (fut s) of
             Some x \<Rightarrow> (Some (Inl (stored_exception x)),
                        s\<lparr>calls := calls s @ [CallIsFinished, CallWaitForFinished]\<rparr>)
           | None \<Rightarrow>
               (case resultStore (fut s) 0 of
                  Some v \<Rightarrow>
                    (Some (Inr v),
                     s\<lparr>fut := (fut s)\<lparr>resultStore := (resultStore (fut s))(0 := None)\<rparr>,
                       calls := calls s @ [CallIsFinished, CallWaitForFinished,
                                            CallIsResultReadyAt 0, CallTakeResult]\<rparr>)
                | None \<Rightarrow>
                    (Some (Inl ResultNotReady),
                     s\<lparr>calls := calls s @ [CallIsFinished, CallWaitForFinished,
                                          CallIsResultReadyAt 0]\<rparr>))))
   \<and> (\<not> stateFinished (fut s) \<longrightarrow>
        TakeResult_await_resume dflt s =
          ((case dflt of Some d \<Rightarrow> Some (Inr d) | None \<Rightarrow> Some (Inl InvalidOrCanceled)),
           s\<lparr>calls := calls s @ [CallIsFinished]\<rparr>))
   \<and> QCoroFuture_takeResult VoidType f = None
   \<and> QCoroFuture_takeResult (ValueType dflt) f =
       Some (co_await (TakeResultOperation dflt) (QCoroFuture f))
   \<and> awaiter_await_resume (TakeResultOperation dflt) s =
       (map_option (map_sum id Value) (fst (TakeResult_await_resume dflt s)),
        snd (TakeResult_await_resume dflt s))"
  by (simp add: fst_TakeResult_await_resume TakeResult_await_resume_finished
      TakeResult_await_resume_unfinished QCoroFuture_takeResult_def awaiter_await_resume_def
      case_prod_beta)

theorem take_result_rules_witness:
  "stateFinished (fut (called (finished_with (Some 42) None :: (int, string) QFuture)))
   \<and> fst (TakeResult_await_resume None
            (called (finished_with (Some 42) None :: (int, string) QFuture))) = Some (Inr 42)
   \<and> resultStore (fut (snd (TakeResult_await_resume None
            (called (finished_with (Some 42) None :: (int, string) QFuture))))) 0 = None
   \<and> fst (TakeResult_await_resume (Some 0)
            (called (finished_with None None :: (int, string) QFuture))) = Some (Inl ResultNotReady)
   \<and> \<not> stateFinished (fut (called (canceled_unfinished :: (int, string) QFuture)))
   \<and> fst (TakeResult_await_resume (Some 0)
            (called (canceled_unfinished :: (int, string) QFuture))) = Some (Inr 0)
   \<and> fst (TakeResult_await_resume None
            (called (canceled_unfinished :: (int, string) QFuture))) = Some (Inl InvalidOrCanceled)"
  using take_result_rules [of None "called (finished_with (Some 42) None :: (int, string) QFuture)"
      "pending :: (int, string) QFuture"]
    take_result_rules [of "Some 0" "called (finished_with None None :: (int, string) QFuture)"
      "pending :: (int, string) QFuture"]
    take_result_rules [of "Some 0" "called (canceled_unfinished :: (int, string) QFuture)"
      "pending :: (int, string) QFuture"]
    take_result_rules [of None "called (canceled_unfinished :: (int, string) QFuture)"
      "pending :: (int, string) QFuture"]
  by (simp add: sample_defs)

text \<open>
  C7 as stated fails on a finished future without a result in which the producer recorded
  a failure: that failure is raised, not ResultNotReady.
\<close>

theorem take_result_rules_counterexample:
  "stateFinished (fut (called (finished_with None (Some ''E'') :: (int, string) QFuture)))
   \<and> resultStore (fut (called (finished_with None (Some ''E'') :: (int, string) QFuture))) 0
       = None
   \<and> fst (TakeResult_await_resume (Some 0)
            (called (finished_with None (Some ''E'') :: (int, string) QFuture)))
       = Some (Inl (stored_exception ''E''))
   \<and> fst (TakeResult_await_resume (Some 0)
            (called (finished_with None (Some ''E'') :: (int, string) QFuture)))
       \<noteq> Some (Inl ResultNotReady)"
  by (simp add: TakeResult_await_resume_finished sample_defs ResultNotReady_def)

section \<open>What the adapter does to the future\<close>

text \<open>
  C9, as the code has it. The ready-check, \<^verbatim>\<open>await_suspend\<close> and the extraction of the
  copy-result and void variants leave the future as it was. The extraction of the
  move-result variant leaves it as it was unless it returns the stored result; then the
  result has been moved out and slot 0 is empty.
\<close>

theorem future_frame:
  "fut (snd (await_ready s)) = fut s
   \<and> fut (wenv (await_suspend w)) = fut (wenv w)
   \<and> fut (snd (ImplT_await_resume dflt s)) = fut s
   \<and> fut (snd (ImplVoid_await_resume s)) = fut s
   \<and> fut (snd (TakeResult_await_resume dflt s)) =
       (if stateFinished (fut s) \<and> exceptionStore (fut s) = None \<and> resultStore (fut s) 0 \<noteq> None
        then (fut s)\<lparr>resultStore := (resultStore (fut s))(0 := None)\<rparr>
        else fut s)"
proof -
  have "fut (snd (TakeResult_await_resume dflt s)) =
       (if stateFinished (fut s) \<and> exceptionStore (fut s) = None \<and> resultStore (fut s) 0 \<noteq> None
        then (fut s)\<lparr>resultStore := (resultStore (fut s))(0 := None)\<rparr>
        else fut s)"
    by (cases "stateFinished (fut s)")
       (auto simp add: TakeResult_await_resume_finished TakeResult_await_resume_unfinished
          split: option.splits)
  then show ?thesis
    by (simp add: fut_await_ready fut_ImplT_await_resume fut_ImplVoid_await_resume
        await_suspend_def)
qed

text \<open>
  C9 as stated fails for \<^verbatim>\<open>takeResult\<close> on a future finished with the value 42: after the
  extraction the future no longer holds the value.
\<close>

theorem future_frame_counterexample:
  "fut (snd (TakeResult_await_resume (Some 0)
              (called (finished_with (Some 42) None :: (int, string) QFuture))))
     \<noteq> fut (called (finished_with (Some 42) None :: (int, string) QFuture))
   \<and> resultStore (fut (called (finished_with (Some 42) None :: (int, string) QFuture))) 0 = Some 42
   \<and> resultStore (fut (snd (TakeResult_await_resume (Some 0)
              (called (finished_with (Some 42) None :: (int, string) QFuture))))) 0 = None"
proof -
  let ?s = "called (finished_with (Some 42) None :: (int, string) QFuture)"
  have a: "resultStore (fut ?s) 0 = Some 42"
    by (simp add: sample_defs)
  have b: "resultStore (fut (snd (TakeResult_await_resume (Some 0) ?s))) 0 = None"
    by (simp add: TakeResult_await_resume_finished sample_defs)
  from a b have "fut (snd (TakeResult_await_resume (Some 0) ?s)) \<noteq> fut ?s"
    by auto
  with a b show ?thesis by simp
qed

section \<open>The latch: one winner, teardown before resume\<close>

lemma accounted_fresh: "accounted fresh_suspension"
  by (simp add: accounted_def fresh_suspension_def)

lemma single_winner_fresh: "single_winner fresh_suspension"
  by (simp add: single_winner_def fresh_suspension_def)

lemma accounted_emit: "accounted s \<Longrightarrow> accounted (emit ch s)"
  by (simp add: accounted_def emit_def)

lemma accounted_resume_lambda: "accounted s \<Longrightarrow> accounted (snd (resume_lambda i s))"
  by (auto simp add: accounted_def resume_lambda_def at_pc_def performs_def split: pc.splits)

lemma single_winnerI:
  assumes "doneFlag s" and "i < length (invocations s)" and "won (invocations s ! i)"
    and "\<And>j. j < length (invocations s) \<Longrightarrow> j \<noteq> i \<Longrightarrow> \<not> won (invocations s ! j)"
    and "effects s = map (Pair i) (performed_before (invocations s ! i))"
  shows "single_winner s"
  using assms unfolding single_winner_def by auto

lemma single_winner_of_won:
  assumes "single_winner s" and "i < length (invocations s)" and "won (invocations s ! i)"
  shows "doneFlag s"
    and "\<And>j. j < length (invocations s) \<Longrightarrow> j \<noteq> i \<Longrightarrow> \<not> won (invocations s ! j)"
    and "effects s = map (Pair i) (performed_before (invocations s ! i))"
proof -
  show d: "doneFlag s"
  proof (rule ccontr)
    assume "\<not> doneFlag s"
    with assms(1) have "\<forall>p \<in> set (invocations s). p = AtCompareExchange"
      by (simp add: single_winner_def)
    with assms(2) have "invocations s ! i = AtCompareExchange"
      by simp
    with assms(3) show False
      by (simp add: won_def)
  qed
  from assms(1) d obtain k where k: "k < length (invocations s)" "won (invocations s ! k)"
    "\<forall>j < length (invocations s). j \<noteq> k \<longrightarrow> \<not> won (invocations s ! j)"
    "effects s = map (Pair k) (performed_before (invocations s ! k))"
    by (auto simp add: single_winner_def)
  from k(3) assms(2,3) have "i = k"
    by auto
  with k show "\<And>j. j < length (invocations s) \<Longrightarrow> j \<noteq> i \<Longrightarrow> \<not> won (invocations s ! j)"
    and "effects s = map (Pair i) (performed_before (invocations s ! i))"
    by auto
qed

lemma single_winner_emit: "single_winner s \<Longrightarrow> single_winner (emit ch s)"
proof (cases "connected ch s")
  case False
  assume "single_winner s"
  with False show ?thesis by (simp add: emit_def)
next
  case True
  assume inv: "single_winner s"
  let ?s' = "s\<lparr>invocations := invocations s @ [AtCompareExchange]\<rparr>"
  have "single_winner ?s'"
  proof (cases "doneFlag s")
    case False
    with inv show ?thesis by (simp add: single_winner_def)
  next
    case d: True
    with inv obtain k where k: "k < length (invocations s)" "won (invocations s ! k)"
      "\<forall>j < length (invocations s). j \<noteq> k \<longrightarrow> \<not> won (invocations s ! j)"
      "effects s = map (Pair k) (performed_before (invocations s ! k))"
      by (auto simp add: single_winner_def)
    show ?thesis
    proof (rule single_winnerI [where i = k])
      show "doneFlag ?s'" using d by simp
      show "k < length (invocations ?s')" using k(1) by simp
      show "won (invocations ?s' ! k)" using k(1,2) by (simp add: nth_append)
      show "effects ?s' = map (Pair k) (performed_before (invocations ?s' ! k))"
        using k(1,4) by (simp add: nth_append)
      show "\<not> won (invocations ?s' ! j)" if "j < length (invocations ?s')" "j \<noteq> k" for j
        using that k(3) by (cases "j < length (invocations s)") (auto simp add: nth_append won_def)
    qed
  qed
  with True show ?thesis by (simp add: emit_def)
qed

lemma single_winner_loses:
  assumes "single_winner s" and "i < length (invocations s)"
    and "invocations s ! i = AtCompareExchange" and "doneFlag s"
  shows "single_winner (at_pc i ReturnedEarly s)"
proof -
  from assms(1,4) obtain k where k: "k < length (invocations s)" "won (invocations s ! k)"
    "\<forall>j < length (invocations s). j \<noteq> k \<longrightarrow> \<not> won (invocations s ! j)"
    "effects s = map (Pair k) (performed_before (invocations s ! k))"
    by (auto simp add: single_winner_def)
  from k(2) assms(3) have ne: "k \<noteq> i"
    by (auto simp add: won_def)
  show ?thesis
  proof (rule single_winnerI [where i = k])
    show "doneFlag (at_pc i ReturnedEarly s)" using assms(4) by (simp add: at_pc_def)
    show "k < length (invocations (at_pc i ReturnedEarly s))" using k(1) by (simp add: at_pc_def)
    show "won (invocations (at_pc i ReturnedEarly s) ! k)" using k(2) ne by (simp add: at_pc_def)
    show "effects (at_pc i ReturnedEarly s) =
            map (Pair k) (performed_before (invocations (at_pc i ReturnedEarly s) ! k))"
      using k(4) ne by (simp add: at_pc_def)
    show "\<not> won (invocations (at_pc i ReturnedEarly s) ! j)"
      if "j < length (invocations (at_pc i ReturnedEarly s))" "j \<noteq> k" for j
      using that k(3) by (cases "j = i") (auto simp add: at_pc_def won_def)
  qed
qed

lemma single_winner_wins:
  assumes "single_winner s" and "i < length (invocations s)" and "\<not> doneFlag s"
  shows "single_winner (at_pc i AtDisconnectFinished (s\<lparr>doneFlag := True\<rparr>))"
proof -
  let ?s' = "at_pc i AtDisconnectFinished (s\<lparr>doneFlag := True\<rparr>)"
  from assms(1,3) have a: "\<forall>p \<in> set (invocations s). p = AtCompareExchange" "effects s = []"
    by (simp_all add: single_winner_def)
  show ?thesis
  proof (rule single_winnerI [where i = i])
    show "doneFlag ?s'" by (simp add: at_pc_def)
    show "i < length (invocations ?s')" using assms(2) by (simp add: at_pc_def)
    show "won (invocations ?s' ! i)" using assms(2) by (simp add: at_pc_def won_def)
    show "effects ?s' = map (Pair i) (performed_before (invocations ?s' ! i))"
      using assms(2) a(2) by (simp add: at_pc_def)
    show "\<not> won (invocations ?s' ! j)" if "j < length (invocations ?s')" "j \<noteq> i" for j
      using that a(1) by (simp add: at_pc_def won_def)
  qed
qed

lemma single_winner_advances:
  assumes "single_winner s" and "i < length (invocations s)" and "won (invocations s ! i)"
    and "won p" and "performed_before p = performed_before (invocations s ! i) @ [x]"
    and "doneFlag t = doneFlag s" and "invocations t = invocations s" and "effects t = effects s"
  shows "single_winner (at_pc i p (performs i x t))"
proof -
  let ?s' = "at_pc i p (performs i x t)"
  note w = single_winner_of_won [OF assms(1-3)]
  show ?thesis
  proof (rule single_winnerI [where i = i])
    show "doneFlag ?s'" using w(1) assms(6) by (simp add: at_pc_def performs_def)
    show "i < length (invocations ?s')" using assms(2,7) by (simp add: at_pc_def performs_def)
    show "won (invocations ?s' ! i)" using assms(2,4,7) by (simp add: at_pc_def performs_def)
    show "effects ?s' = map (Pair i) (performed_before (invocations ?s' ! i))"
      using assms(2,5,7,8) w(3) by (simp add: at_pc_def performs_def)
    show "\<not> won (invocations ?s' ! j)" if "j < length (invocations ?s')" "j \<noteq> i" for j
      using that w(2) [of j] assms(7) by (simp add: at_pc_def performs_def)
  qed
qed

lemma single_winner_resume_lambda:
  assumes "single_winner s"
  shows "single_winner (snd (resume_lambda i s))"
proof (cases "i < length (invocations s)")
  case False
  with assms show ?thesis by (simp add: resume_lambda_def)
next
  case True
  show ?thesis
  proof (cases "invocations s ! i")
    case AtCompareExchange
    with True assms show ?thesis
      by (simp add: resume_lambda_def single_winner_loses single_winner_wins)
  next
    case AtDisconnectFinished
    with True assms show ?thesis
      by (simp add: resume_lambda_def single_winner_advances won_def)
  next
    case AtDisconnectCanceled
    with True assms show ?thesis
      by (simp add: resume_lambda_def single_winner_advances won_def)
  next
    case AtDeleteLater
    with True assms show ?thesis
      by (simp add: resume_lambda_def single_winner_advances won_def)
  next
    case AtResume
    with True assms show ?thesis
      by (simp add: resume_lambda_def single_winner_advances won_def)
  next
    case ReturnedEarly
    with True assms show ?thesis by (simp add: resume_lambda_def)
  next
    case ReturnedAtEnd
    with True assms show ?thesis by (simp add: resume_lambda_def)
  qed
qed

lemma resume_lambda_resumes:
  "fst (resume_lambda i s) \<longleftrightarrow> i < length (invocations s) \<and> invocations s ! i = AtResume"
  by (simp add: resume_lambda_def split: pc.splits)

lemma resumeCalls_resume_lambda:
  "resumeCalls (snd (resume_lambda i s)) =
     (if fst (resume_lambda i s) then Suc (resumeCalls s) else resumeCalls s)"
  by (simp add: resume_lambda_def at_pc_def performs_def split: pc.splits)

lemma before_resume:
  assumes "accounted s" and "single_winner s"
    and "i < length (invocations s)" and "invocations s ! i = AtResume"
  shows "\<not> finishedConn s \<and> \<not> canceledConn s \<and> deleteLaterCalls s = 1 \<and> resumeCalls s = 0"
proof -
  have "won (invocations s ! i)"
    using assms(4) by (simp add: won_def)
  from single_winner_of_won(3) [OF assms(2,3) this] assms(4)
  have "effects s = [(i, Disconnect Finished), (i, Disconnect Canceled), (i, DeleteLater)]"
    by simp
  with assms(1) show ?thesis
    by (simp add: accounted_def)
qed

lemma coherent_step:
  assumes "coherent w"
  shows "coherent (step ev w)"
proof -
  from assms obtain s where s: "suspended w = Some s" "accounted s" "single_winner s"
    "length (returned w) = resumeCalls s" "(awaiting w = None) = (0 < resumeCalls s)"
    by (auto simp add: coherent_def split: option.splits)
  show ?thesis
  proof (cases ev)
    case (Produce f)
    with s show ?thesis
      by (simp add: step_def coherent_def)
  next
    case (Emit ch)
    have "resumeCalls (emit ch s) = resumeCalls s"
      by (simp add: emit_def)
    with Emit s show ?thesis
      by (simp add: step_def coherent_def accounted_emit single_winner_emit)
  next
    case (Step i)
    let ?s' = "snd (resume_lambda i s)"
    have inv': "accounted ?s'" "single_winner ?s'"
      using s by (simp_all add: accounted_resume_lambda single_winner_resume_lambda)
    show ?thesis
    proof (cases "fst (resume_lambda i s)")
      case False
      then have "step ev w = w\<lparr>suspended := Some ?s'\<rparr>"
        using Step s(1) by (simp add: step_def case_prod_beta)
      moreover have "resumeCalls ?s' = resumeCalls s"
        using False by (simp add: resumeCalls_resume_lambda)
      ultimately show ?thesis
        using inv' s by (simp add: coherent_def)
    next
      case True
      then have at: "i < length (invocations s)" "invocations s ! i = AtResume"
        by (simp_all add: resume_lambda_resumes)
      from before_resume [OF s(2,3) at] have zero: "resumeCalls s = 0"
        by simp
      with s(5) obtain aw where aw: "awaiting w = Some aw"
        by auto
      have one: "resumeCalls ?s' = Suc 0"
        using True zero by (simp add: resumeCalls_resume_lambda)
      have "step ev w = resume_extraction aw (w\<lparr>suspended := Some ?s'\<rparr>)"
        using Step s(1) True aw by (simp add: step_def case_prod_beta coroutine_resume_def)
      then show ?thesis
        using inv' one s(4) zero
        by (simp add: coherent_def resume_extraction_def case_prod_beta)
    qed
  qed
qed

lemma coherent_run: "coherent w \<Longrightarrow> coherent (run evs w)"
  by (induction evs arbitrary: w) (simp_all add: coherent_step)

lemma coherent_co_await:
  assumes "\<not> stateFinished f" and "\<not> stateCanceled f"
  shows "coherent (co_await aw (QCoroFuture f))"
proof -
  have "\<not> fst (await_ready (wenv (QCoroFuture f)))"
    using assms by (simp add: await_ready_eq QCoroFuture_def)
  from co_await_not_ready [OF this] show ?thesis
    by (simp add: coherent_def accounted_fresh single_winner_fresh)
       (simp add: QCoroFuture_def fresh_suspension_def)
qed

lemma prefix_performed_before: "prefix (performed_before p) teardown_then_resume"
  by (cases p) (simp_all add: teardown_then_resume_def)

lemma effects_of_suspension:
  assumes "single_winner s"
  shows "\<exists>p. map snd (effects s) = performed_before p
             \<and> (\<forall>e \<in> set (effects s). fst e < length (invocations s)
                    \<and> invocations s ! fst e = p \<and> won p)"
proof (cases "doneFlag s")
  case False
  with assms have "effects s = []"
    by (simp add: single_winner_def)
  then show ?thesis
    by (intro exI [where x = AtCompareExchange]) simp
next
  case True
  with assms obtain k where k: "k < length (invocations s)" "won (invocations s ! k)"
    "effects s = map (Pair k) (performed_before (invocations s ! k))"
    by (auto simp add: single_winner_def)
  have "map snd (effects s) = performed_before (invocations s ! k)"
    by (simp add: k(3) comp_def)
  moreover have "fst e = k" if "e \<in> set (effects s)" for e
    using that by (auto simp add: k(3))
  ultimately show ?thesis
    using k(1,2) by auto
qed

lemma effects_in_order:
  assumes "single_winner s"
  shows "prefix (map snd (effects s)) teardown_then_resume"
  using effects_of_suspension [OF assms] prefix_performed_before by auto

lemma effects_by_winner:
  assumes "single_winner s" and "e \<in> set (effects s)"
  shows "fst e < length (invocations s) \<and> won (invocations s ! fst e)"
  using effects_of_suspension [OF assms(1)] assms(2) by auto

lemma resumeCalls_performed_before:
  "length (filter (\<lambda>x. x = Resume) (performed_before p)) \<le> 1"
  by (cases p) simp_all

lemma resumeCalls_le_1:
  assumes "accounted s" and "single_winner s"
  shows "resumeCalls s \<le> 1"
proof -
  from effects_of_suspension [OF assms(2)] obtain p
    where p: "map snd (effects s) = performed_before p" by auto
  have "resumeCalls s = length (filter (\<lambda>x. x = Resume) (map snd (effects s)))"
    using assms(1) by (simp add: accounted_def filter_map comp_def)
  with p resumeCalls_performed_before [of p] show ?thesis by simp
qed

lemma winner_unique:
  assumes "single_winner s"
    and "i < length (invocations s)" and "won (invocations s ! i)"
    and "j < length (invocations s)" and "won (invocations s ! j)"
  shows "i = j"
  using single_winner_of_won(2) [OF assms(1-3), of j] assms(4,5) by auto

lemma all_returned:
  assumes "accounted s" and "single_winner s" and "invocations s \<noteq> []"
    and "\<forall>p \<in> set (invocations s). p = ReturnedEarly \<or> p = ReturnedAtEnd"
  shows "resumeCalls s = 1"
    and "\<exists>!i. i < length (invocations s) \<and> won (invocations s ! i)"
    and "map snd (effects s) = teardown_then_resume"
proof -
  have d: "doneFlag s"
  proof (rule ccontr)
    assume "\<not> doneFlag s"
    with assms(2) have "\<forall>p \<in> set (invocations s). p = AtCompareExchange"
      by (simp add: single_winner_def)
    with assms(3,4) show False
      by (cases "invocations s") auto
  qed
  with assms(2) obtain k where k: "k < length (invocations s)" "won (invocations s ! k)"
    "effects s = map (Pair k) (performed_before (invocations s ! k))"
    by (auto simp add: single_winner_def)
  from k(1) assms(4) have "invocations s ! k = ReturnedEarly \<or> invocations s ! k = ReturnedAtEnd"
    by simp
  with k(2) have "invocations s ! k = ReturnedAtEnd"
    by (auto simp add: won_def)
  with k(3) have e: "effects s = map (Pair k) teardown_then_resume"
    by (simp add: teardown_then_resume_def)
  then show "map snd (effects s) = teardown_then_resume"
    by (simp add: comp_def)
  from e assms(1) show "resumeCalls s = 1"
    by (simp add: accounted_def teardown_then_resume_def)
  show "\<exists>!i. i < length (invocations s) \<and> won (invocations s ! i)"
  proof (rule ex1I [where a = k])
    show "k < length (invocations s) \<and> won (invocations s ! k)" using k by simp
    show "i = k" if "i < length (invocations s) \<and> won (invocations s ! i)" for i
      using winner_unique [OF assms(2), of i k] that k by simp
  qed
qed

lemma after_resume:
  assumes "accounted s" and "single_winner s" and "0 < resumeCalls s"
  shows "\<not> finishedConn s \<and> \<not> canceledConn s \<and> deleteLaterCalls s = 1"
proof -
  from effects_of_suspension [OF assms(2)] obtain p
    where p: "map snd (effects s) = performed_before p" by auto
  have r: "resumeCalls s = length (filter (\<lambda>x. x = Resume) (map snd (effects s)))"
    and dl: "deleteLaterCalls s = length (filter (\<lambda>x. x = DeleteLater) (map snd (effects s)))"
    and fc: "finishedConn s = (Disconnect Finished \<notin> set (map snd (effects s)))"
    and cc: "canceledConn s = (Disconnect Canceled \<notin> set (map snd (effects s)))"
    using assms(1) by (simp_all add: accounted_def filter_map comp_def)
  from r assms(3) p have "p = ReturnedAtEnd"
    by (cases p) simp_all
  with p dl fc cc show ?thesis by simp
qed

lemma not_yet_invoked:
  assumes "accounted s" and "single_winner s" and "invocations s = []"
  shows "finishedConn s \<and> canceledConn s"
proof -
  from assms(2,3) have "effects s = []"
    by (cases "doneFlag s") (simp_all add: single_winner_def)
  with assms(1) show ?thesis
    by (simp add: accounted_def)
qed

lemma loser_step:
  assumes "i < length (invocations s)"
  shows "doneFlag s \<and> invocations s ! i = AtCompareExchange \<longrightarrow>
           resume_lambda i s = (False, at_pc i ReturnedEarly s)"
    and "invocations s ! i = ReturnedEarly \<longrightarrow> resume_lambda i s = (False, s)"
  using assms by (simp_all add: resume_lambda_def)

lemma returned_step_None: "suspended w = None \<Longrightarrow> returned (step ev w) = returned w"
  by (cases ev) (simp_all add: step_def)

lemma returned_run_None: "suspended w = None \<Longrightarrow> returned (run evs w) = returned w"
  by (induction evs arbitrary: w) (simp_all add: returned_step_None suspended_step_None)

lemma run_append: "run (xs @ ys) w = run ys (run xs w)"
  by (induction xs arbitrary: w) simp_all

lemma steps_left_0: "steps_left p = 0 \<longleftrightarrow> p = ReturnedEarly \<or> p = ReturnedAtEnd"
  by (cases p) simp_all

lemma length_resume_lambda:
  "length (invocations (snd (resume_lambda i s))) = length (invocations s)"
  by (simp add: resume_lambda_def at_pc_def performs_def split: pc.splits)

lemma resume_lambda_other:
  "j \<noteq> i \<Longrightarrow> invocations (snd (resume_lambda i s)) ! j = invocations s ! j"
  by (simp add: resume_lambda_def at_pc_def performs_def split: pc.splits)

lemma resume_lambda_progress:
  "i < length (invocations s) \<Longrightarrow>
   steps_left (invocations (snd (resume_lambda i s)) ! i) \<le> steps_left (invocations s ! i) - 1"
  by (simp add: resume_lambda_def at_pc_def performs_def split: pc.splits)

lemma suspended_step_Step:
  "suspended (step (Step i) w) = map_option (\<lambda>s. snd (resume_lambda i s)) (suspended w)"
  by (cases "suspended w")
     (simp_all add: step_def case_prod_beta coroutine_resume_def resume_extraction_def
        split: option.splits)

lemma steps_of_one:
  assumes "suspended w = Some s" and "i < length (invocations s)"
  shows "\<exists>s'. suspended (run (replicate k (Step i)) w) = Some s'
           \<and> length (invocations s') = length (invocations s)
           \<and> steps_left (invocations s' ! i) \<le> steps_left (invocations s ! i) - k
           \<and> (\<forall>j. j \<noteq> i \<longrightarrow> invocations s' ! j = invocations s ! j)"
  using assms
proof (induction k arbitrary: w s)
  case 0
  then show ?case by simp
next
  case (Suc k)
  let ?t = "snd (resume_lambda i s)"
  have t: "suspended (step (Step i) w) = Some ?t"
    using Suc.prems(1) by (simp add: suspended_step_Step)
  have l: "i < length (invocations ?t)"
    using Suc.prems(2) by (simp add: length_resume_lambda)
  from Suc.IH [OF t l] obtain s' where s': "suspended (run (replicate k (Step i)) (step (Step i) w)) = Some s'"
    "length (invocations s') = length (invocations ?t)"
    "steps_left (invocations s' ! i) \<le> steps_left (invocations ?t ! i) - k"
    "\<forall>j. j \<noteq> i \<longrightarrow> invocations s' ! j = invocations ?t ! j"
    by blast
  from s'(3) resume_lambda_progress [OF Suc.prems(2)]
  have "steps_left (invocations s' ! i) \<le> steps_left (invocations s ! i) - Suc k"
    by simp
  with s'(1,2,4) show ?case
    by (simp add: length_resume_lambda resume_lambda_other)
qed

lemma steps_left_le_5: "steps_left p \<le> 5"
  by (cases p) simp_all

lemma five_steps:
  assumes "suspended w = Some s" and "i < length (invocations s)"
  shows "\<exists>s'. suspended (run (replicate 5 (Step i)) w) = Some s'
           \<and> length (invocations s') = length (invocations s)
           \<and> steps_left (invocations s' ! i) = 0
           \<and> (\<forall>j. j \<noteq> i \<longrightarrow> invocations s' ! j = invocations s ! j)"
proof -
  from steps_of_one [OF assms, of 5] obtain s' where
    s': "suspended (run (replicate 5 (Step i)) w) = Some s'"
    "length (invocations s') = length (invocations s)"
    "steps_left (invocations s' ! i) \<le> steps_left (invocations s ! i) - 5"
    "\<forall>j. j \<noteq> i \<longrightarrow> invocations s' ! j = invocations s ! j"
    by blast
  from s'(3) steps_left_le_5 [of "invocations s ! i"] have "steps_left (invocations s' ! i) = 0"
    by simp
  with s'(1,2,4) show ?thesis by blast
qed

lemma run_each_to_end:
  assumes "suspended w = Some s" and "\<forall>i \<in> set is. i < length (invocations s)"
  shows "\<exists>s'. suspended (run (concat (map (\<lambda>i. replicate 5 (Step i)) is)) w) = Some s'
           \<and> length (invocations s') = length (invocations s)
           \<and> (\<forall>j < length (invocations s).
                 j \<in> set is \<or> steps_left (invocations s ! j) = 0 \<longrightarrow>
                 steps_left (invocations s' ! j) = 0)"
  using assms
proof (induction "is" arbitrary: w s)
  case Nil
  then show ?case by simp
next
  case (Cons i "is")
  from Cons.prems(2) have i: "i < length (invocations s)" by simp
  from five_steps [OF Cons.prems(1) i] obtain t where
    t: "suspended (run (replicate 5 (Step i)) w) = Some t"
    "length (invocations t) = length (invocations s)"
    "steps_left (invocations t ! i) = 0"
    "\<forall>j. j \<noteq> i \<longrightarrow> invocations t ! j = invocations s ! j"
    by blast
  from Cons.prems(2) t(2) have "\<forall>i \<in> set is. i < length (invocations t)" by simp
  from Cons.IH [OF t(1) this] obtain s' where
    s': "suspended (run (concat (map (\<lambda>i. replicate 5 (Step i)) is))
                      (run (replicate 5 (Step i)) w)) = Some s'"
    "length (invocations s') = length (invocations t)"
    "\<forall>j < length (invocations t).
       j \<in> set is \<or> steps_left (invocations t ! j) = 0 \<longrightarrow> steps_left (invocations s' ! j) = 0"
    by blast
  have "steps_left (invocations s' ! j) = 0"
    if "j < length (invocations s)" "j \<in> set (i # is) \<or> steps_left (invocations s ! j) = 0" for j
  proof (cases "j = i")
    case True
    with t(3) s'(3) that(1) t(2) show ?thesis by simp
  next
    case False
    with t(4) have "invocations t ! j = invocations s ! j" by simp
    with that False s'(3) t(2) show ?thesis by auto
  qed
  with s'(1,2) t(2) show ?case
    by (simp add: run_append)
qed

lemma run_to_end_returns:
  assumes "suspended w = Some s"
  shows "\<exists>s'. suspended (run (run_to_end (length (invocations s))) w) = Some s'
           \<and> length (invocations s') = length (invocations s)
           \<and> (\<forall>p \<in> set (invocations s'). p = ReturnedEarly \<or> p = ReturnedAtEnd)"
proof -
  have "\<forall>i \<in> set [0..<length (invocations s)]. i < length (invocations s)" by simp
  from run_each_to_end [OF assms this] obtain s' where
    s': "suspended (run (run_to_end (length (invocations s))) w) = Some s'"
    "length (invocations s') = length (invocations s)"
    "\<forall>j < length (invocations s).
       j \<in> set [0..<length (invocations s)] \<or> steps_left (invocations s ! j) = 0 \<longrightarrow>
       steps_left (invocations s' ! j) = 0"
    unfolding run_to_end_def by blast
  have "p = ReturnedEarly \<or> p = ReturnedAtEnd" if "p \<in> set (invocations s')" for p
  proof -
    from that obtain j where "j < length (invocations s')" "invocations s' ! j = p"
      by (auto simp add: in_set_conv_nth)
    with s'(2,3) have "steps_left p = 0" by auto
    then show ?thesis by (simp add: steps_left_0)
  qed
  with s'(1,2) show ?thesis by blast
qed

lemma coherent_run_to_end:
  assumes "coherent w" and "suspended w = Some s" and "invocations s \<noteq> []"
  shows "\<exists>s'. suspended (run (run_to_end (length (invocations s))) w) = Some s'
           \<and> length (invocations s') = length (invocations s)
           \<and> (\<forall>p \<in> set (invocations s'). p = ReturnedEarly \<or> p = ReturnedAtEnd)
           \<and> resumeCalls s' = 1
           \<and> (\<exists>!i. i < length (invocations s') \<and> won (invocations s' ! i))
           \<and> map snd (effects s') = teardown_then_resume
           \<and> length (returned (run (run_to_end (length (invocations s))) w)) = 1"
proof -
  let ?w' = "run (run_to_end (length (invocations s))) w"
  from run_to_end_returns [OF assms(2)] obtain s' where
    s': "suspended ?w' = Some s'" "length (invocations s') = length (invocations s)"
    "\<forall>p \<in> set (invocations s'). p = ReturnedEarly \<or> p = ReturnedAtEnd"
    by blast
  have "coherent ?w'"
    using assms(1) by (rule coherent_run)
  with s'(1) have c: "accounted s'" "single_winner s'" "length (returned ?w') = resumeCalls s'"
    by (simp_all add: coherent_def)
  from s'(2) assms(3) have ne: "invocations s' \<noteq> []" by auto
  note a = all_returned [OF c(1,2) ne s'(3)]
  from a c(3) s' show ?thesis by simp
qed

lemmas machine_defs =
  step_def resume_lambda_def at_pc_def performs_def emit_def connected_def
  coroutine_resume_def resume_extraction_def awaiter_await_resume_def
  co_await_def await_suspend_def fresh_suspension_def QCoroFuture_def await_ready_eq

lemma run_both_fire:
  "run both_fire (co_await (WaitForFinishedOperation (ValueType (Some 0))) (QCoroFuture pending)) =
     \<lparr>wenv = \<lparr>fut = finished_with (Some 7) None,
              calls = [CallIsFinished, CallIsCanceled, CallIsFinished, CallWaitForFinished,
                       CallIsResultReadyAt 0, CallResult]\<rparr>,
      suspended = Some \<lparr>doneFlag = True, finishedConn = False, canceledConn = False,
                        deleteLaterCalls = 1, resumeCalls = 1,
                        invocations = [ReturnedEarly, ReturnedAtEnd],
                        effects = [(1, Disconnect Finished), (1, Disconnect Canceled),
                                   (1, DeleteLater), (1, Resume)]\<rparr>,
      awaiting = None,
      returned = [Some (Inr (Value 7))]\<rparr>"
  by (simp add: both_fire_def machine_defs sample_defs ImplT_await_resume_finished)

lemma run_about_to_resume:
  "run about_to_resume (co_await (WaitForFinishedOperation (ValueType (Some 0))) (QCoroFuture pending)) =
     \<lparr>wenv = \<lparr>fut = canceled_unfinished, calls = [CallIsFinished, CallIsCanceled]\<rparr>,
      suspended = Some \<lparr>doneFlag = True, finishedConn = False, canceledConn = False,
                        deleteLaterCalls = 1, resumeCalls = 0,
                        invocations = [AtResume],
                        effects = [(0, Disconnect Finished), (0, Disconnect Canceled),
                                   (0, DeleteLater)]\<rparr>,
      awaiting = Some (WaitForFinishedOperation (ValueType (Some 0))),
      returned = []\<rparr>"
  by (simp add: about_to_resume_def machine_defs sample_defs)

lemma run_one_fires_to_end:
  "run (one_fires @ run_to_end (Suc 0))
       (co_await (WaitForFinishedOperation (ValueType (Some 0))) (QCoroFuture pending)) =
     \<lparr>wenv = \<lparr>fut = canceled_unfinished,
              calls = [CallIsFinished, CallIsCanceled, CallIsFinished]\<rparr>,
      suspended = Some \<lparr>doneFlag = True, finishedConn = False, canceledConn = False,
                        deleteLaterCalls = 1, resumeCalls = 1,
                        invocations = [ReturnedAtEnd],
                        effects = [(0, Disconnect Finished), (0, Disconnect Canceled),
                                   (0, DeleteLater), (0, Resume)]\<rparr>,
      awaiting = None,
      returned = [Some (Inr (Value 0))]\<rparr>"
  by (simp add: one_fires_def run_to_end_def machine_defs sample_defs
      ImplT_await_resume_unfinished eval_nat_numeral)

lemma run_one_fires:
  "run one_fires
       (co_await (WaitForFinishedOperation (ValueType (Some 0))) (QCoroFuture pending)) =
     \<lparr>wenv = \<lparr>fut = canceled_unfinished, calls = [CallIsFinished, CallIsCanceled]\<rparr>,
      suspended = Some \<lparr>doneFlag = False, finishedConn = True, canceledConn = True,
                        deleteLaterCalls = 0, resumeCalls = 0,
                        invocations = [AtCompareExchange], effects = []\<rparr>,
      awaiting = Some (WaitForFinishedOperation (ValueType (Some 0))),
      returned = []\<rparr>"
  by (simp add: one_fires_def machine_defs sample_defs)

text \<open>
  C1, as the code has it. For a future that is neither finished nor canceled when the
  await begins, the await suspends, and whatever the producer, the two signals and the
  invocations of the callback do, in any interleaving, in every state reached afterwards:
  \<^verbatim>\<open>resume()\<close> has been called at most once and the coroutine has continued exactly as
  often; at most one invocation has won the latch; every effect performed is the
  winner's; an invocation that finds the latch set only returns, changing nothing else;
  every step of an invocation brings it nearer to its end; as long as no invocation
  exists both signals are still connected, so the first one emitted is delivered. Once
  at least one invocation exists and all have returned, \<^verbatim>\<open>resume()\<close> has been called
  exactly once, exactly one invocation has won, and the effects performed are the
  disconnect of both channels, the posted deletion and the resume. And that state is
  reached: from any state with at least one invocation, five steps of each invocation
  bring all of them to their end, with \<^verbatim>\<open>resume()\<close> called exactly once and the
  coroutine continued exactly once.
\<close>

theorem resumed_exactly_once:
  assumes "\<not> stateFinished f" and "\<not> stateCanceled f"
  shows "\<exists>s. suspended (run evs (co_await aw (QCoroFuture f))) = Some s
              \<and> resumeCalls s \<le> 1
              \<and> length (returned (run evs (co_await aw (QCoroFuture f)))) = resumeCalls s
              \<and> (\<forall>i j. i < length (invocations s) \<and> won (invocations s ! i)
                       \<and> j < length (invocations s) \<and> won (invocations s ! j) \<longrightarrow> i = j)
              \<and> (\<forall>e \<in> set (effects s).
                    fst e < length (invocations s) \<and> won (invocations s ! fst e))
              \<and> (\<forall>i < length (invocations s).
                    doneFlag s \<and> invocations s ! i = AtCompareExchange \<longrightarrow>
                    resume_lambda i s = (False, at_pc i ReturnedEarly s))
              \<and> (\<forall>i < length (invocations s).
                    invocations s ! i = ReturnedEarly \<longrightarrow> resume_lambda i s = (False, s))
              \<and> (\<forall>i < length (invocations s).
                    steps_left (invocations (snd (resume_lambda i s)) ! i)
                      \<le> steps_left (invocations s ! i) - 1)
              \<and> (invocations s = [] \<longrightarrow> finishedConn s \<and> canceledConn s)
              \<and> (invocations s \<noteq> []
                  \<and> (\<forall>p \<in> set (invocations s). p = ReturnedEarly \<or> p = ReturnedAtEnd) \<longrightarrow>
                  resumeCalls s = 1
                  \<and> (\<exists>!i. i < length (invocations s) \<and> won (invocations s ! i))
                  \<and> map snd (effects s) = teardown_then_resume)
              \<and> (invocations s \<noteq> [] \<longrightarrow>
                  (\<exists>s'. suspended (run (evs @ run_to_end (length (invocations s)))
                                     (co_await aw (QCoroFuture f))) = Some s'
                     \<and> length (invocations s') = length (invocations s)
                     \<and> (\<forall>p \<in> set (invocations s'). p = ReturnedEarly \<or> p = ReturnedAtEnd)
                     \<and> resumeCalls s' = 1
                     \<and> (\<exists>!i. i < length (invocations s') \<and> won (invocations s' ! i))
                     \<and> map snd (effects s') = teardown_then_resume
                     \<and> length (returned (run (evs @ run_to_end (length (invocations s)))
                                            (co_await aw (QCoroFuture f)))) = 1))"
proof -
  let ?w = "run evs (co_await aw (QCoroFuture f))"
  have c: "coherent ?w"
    using assms by (simp add: coherent_co_await coherent_run)
  then obtain s where s: "suspended ?w = Some s" "accounted s" "single_winner s"
    "length (returned ?w) = resumeCalls s"
    by (auto simp add: coherent_def split: option.splits)
  note le = resumeCalls_le_1 [OF s(2,3)]
  have "\<forall>i j. i < length (invocations s) \<and> won (invocations s ! i)
             \<and> j < length (invocations s) \<and> won (invocations s ! j) \<longrightarrow> i = j"
    using winner_unique [OF s(3)] by blast
  moreover have "\<forall>e \<in> set (effects s).
                    fst e < length (invocations s) \<and> won (invocations s ! fst e)"
    using effects_by_winner [OF s(3)] by blast
  moreover have "\<forall>i < length (invocations s).
                    doneFlag s \<and> invocations s ! i = AtCompareExchange \<longrightarrow>
                    resume_lambda i s = (False, at_pc i ReturnedEarly s)"
    using loser_step(1) by blast
  moreover have "\<forall>i < length (invocations s).
                    invocations s ! i = ReturnedEarly \<longrightarrow> resume_lambda i s = (False, s)"
    using loser_step(2) by blast
  moreover have "\<forall>i < length (invocations s).
                    steps_left (invocations (snd (resume_lambda i s)) ! i)
                      \<le> steps_left (invocations s ! i) - 1"
    using resume_lambda_progress by blast
  moreover have "invocations s = [] \<longrightarrow> finishedConn s \<and> canceledConn s"
    using not_yet_invoked [OF s(2,3)] by blast
  moreover have "invocations s \<noteq> []
                  \<and> (\<forall>p \<in> set (invocations s). p = ReturnedEarly \<or> p = ReturnedAtEnd) \<longrightarrow>
                  resumeCalls s = 1
                  \<and> (\<exists>!i. i < length (invocations s) \<and> won (invocations s ! i))
                  \<and> map snd (effects s) = teardown_then_resume"
    using all_returned [OF s(2,3)] by blast
  moreover have "invocations s \<noteq> [] \<longrightarrow>
                  (\<exists>s'. suspended (run (evs @ run_to_end (length (invocations s)))
                                     (co_await aw (QCoroFuture f))) = Some s'
                     \<and> length (invocations s') = length (invocations s)
                     \<and> (\<forall>p \<in> set (invocations s'). p = ReturnedEarly \<or> p = ReturnedAtEnd)
                     \<and> resumeCalls s' = 1
                     \<and> (\<exists>!i. i < length (invocations s') \<and> won (invocations s' ! i))
                     \<and> map snd (effects s') = teardown_then_resume
                     \<and> length (returned (run (evs @ run_to_end (length (invocations s)))
                                            (co_await aw (QCoroFuture f)))) = 1)"
    using coherent_run_to_end [OF c s(1)] by (simp add: run_append)
  ultimately show ?thesis
    using s(1,4) le by simp
qed

theorem resumed_exactly_once_witness:
  "\<not> stateFinished (pending :: (int, string) QFuture)
   \<and> \<not> stateCanceled (pending :: (int, string) QFuture)
   \<and> (\<exists>s. suspended (run both_fire (co_await (WaitForFinishedOperation (ValueType (Some 0)))
                                     (QCoroFuture pending))) = Some s
          \<and> invocations s = [ReturnedEarly, ReturnedAtEnd]
          \<and> resumeCalls s = 1
          \<and> (\<exists>!i. i < length (invocations s) \<and> won (invocations s ! i))
          \<and> map snd (effects s) = teardown_then_resume)
   \<and> returned (run both_fire (co_await (WaitForFinishedOperation (ValueType (Some 0)))
                               (QCoroFuture pending))) = [Some (Inr (Value 7))]
   \<and> (\<exists>s. suspended (run one_fires (co_await (WaitForFinishedOperation (ValueType (Some 0)))
                                     (QCoroFuture pending))) = Some s
          \<and> invocations s = [AtCompareExchange]
          \<and> resumeCalls s = 0)
   \<and> (\<exists>s'. suspended (run (one_fires @ run_to_end 1)
                         (co_await (WaitForFinishedOperation (ValueType (Some 0)))
                                   (QCoroFuture pending))) = Some s'
          \<and> invocations s' = [ReturnedAtEnd]
          \<and> resumeCalls s' = 1
          \<and> map snd (effects s') = teardown_then_resume)
   \<and> returned (run (one_fires @ run_to_end 1)
                 (co_await (WaitForFinishedOperation (ValueType (Some 0)))
                           (QCoroFuture pending))) = [Some (Inr (Value 0))]"
proof -
  have nf: "\<not> stateFinished (pending :: (int, string) QFuture)"
    and nc: "\<not> stateCanceled (pending :: (int, string) QFuture)"
    by (simp_all add: sample_defs)
  from resumed_exactly_once [OF nf nc, of both_fire "WaitForFinishedOperation (ValueType (Some 0))"]
    resumed_exactly_once [OF nf nc, of one_fires "WaitForFinishedOperation (ValueType (Some 0))"]
    nf nc
  show ?thesis
    by (simp add: run_both_fire run_one_fires run_one_fires_to_end teardown_then_resume_def)
qed

text \<open>
  C1 as stated fails on a future that is not finished but already canceled: the
  ready-check is true, so \<^verbatim>\<open>await_suspend\<close> does not run; no callback is registered, no
  invocation wins a latch and \<^verbatim>\<open>resume()\<close> is never called, also when both signals are
  emitted afterwards. The coroutine was never suspended and has its result at once.
\<close>

theorem resumed_exactly_once_counterexample:
  "\<not> stateFinished (canceled_unfinished :: (int, string) QFuture)
   \<and> suspended (co_await (WaitForFinishedOperation (ValueType (Some 0)))
                  (QCoroFuture (canceled_unfinished :: (int, string) QFuture))) = None
   \<and> suspended (run both_fire
                  (co_await (WaitForFinishedOperation (ValueType (Some 0)))
                     (QCoroFuture (canceled_unfinished :: (int, string) QFuture)))) = None
   \<and> returned (co_await (WaitForFinishedOperation (ValueType (Some 0)))
                 (QCoroFuture (canceled_unfinished :: (int, string) QFuture)))
       = [Some (Inr (Value 0))]"
  by (simp add: both_fire_def machine_defs sample_defs ImplT_await_resume_unfinished
      ImplT_await_resume_finished)

text \<open>
  C3. In every await that suspends, in every state reached afterwards: the effects
  performed so far are an initial part of the sequence disconnect finished, disconnect
  canceled, post the watcher's deletion (\<^verbatim>\<open>deleteLater()\<close>, a request, not a
  \<^verbatim>\<open>delete\<close>), resume; an invocation that is about to call \<^verbatim>\<open>resume()\<close> finds both
  connections disconnected and the deletion posted, with the coroutine not yet resumed;
  and once \<^verbatim>\<open>resume()\<close> has been called both connections are disconnected.
\<close>

theorem teardown_before_resume:
  assumes "\<not> stateFinished f" and "\<not> stateCanceled f"
  shows "\<exists>s. suspended (run evs (co_await aw (QCoroFuture f))) = Some s
    \<and> prefix (map snd (effects s)) teardown_then_resume
    \<and> (\<forall>i < length (invocations s). invocations s ! i = AtResume \<longrightarrow>
          \<not> finishedConn s \<and> \<not> canceledConn s \<and> deleteLaterCalls s = 1 \<and> resumeCalls s = 0
          \<and> returned (run evs (co_await aw (QCoroFuture f))) = [])
    \<and> (0 < resumeCalls s \<longrightarrow>
          \<not> finishedConn s \<and> \<not> canceledConn s \<and> deleteLaterCalls s = 1)"
proof -
  let ?w = "run evs (co_await aw (QCoroFuture f))"
  have "coherent ?w"
    using assms by (simp add: coherent_co_await coherent_run)
  then obtain s where s: "suspended ?w = Some s" "accounted s" "single_winner s"
    "length (returned ?w) = resumeCalls s"
    by (auto simp add: coherent_def split: option.splits)
  have "\<forall>i < length (invocations s). invocations s ! i = AtResume \<longrightarrow>
          \<not> finishedConn s \<and> \<not> canceledConn s \<and> deleteLaterCalls s = 1 \<and> resumeCalls s = 0
          \<and> returned ?w = []"
    using before_resume [OF s(2,3)] s(4) by auto
  moreover have "0 < resumeCalls s \<longrightarrow>
          \<not> finishedConn s \<and> \<not> canceledConn s \<and> deleteLaterCalls s = 1"
    using after_resume [OF s(2,3)] by blast
  ultimately show ?thesis
    using s(1) effects_in_order [OF s(3)] by simp
qed

theorem teardown_before_resume_witness:
  "\<not> stateFinished (pending :: (int, string) QFuture)
   \<and> \<not> stateCanceled (pending :: (int, string) QFuture)
   \<and> (\<exists>s. suspended (run about_to_resume (co_await (WaitForFinishedOperation (ValueType (Some 0)))
                                     (QCoroFuture pending))) = Some s
          \<and> invocations s = [AtResume]
          \<and> map snd (effects s) = [Disconnect Finished, Disconnect Canceled, DeleteLater]
          \<and> \<not> finishedConn s \<and> \<not> canceledConn s \<and> deleteLaterCalls s = 1 \<and> resumeCalls s = 0)
   \<and> (\<exists>s. suspended (run both_fire (co_await (WaitForFinishedOperation (ValueType (Some 0)))
                                     (QCoroFuture pending))) = Some s
          \<and> 0 < resumeCalls s
          \<and> map snd (effects s) = teardown_then_resume
          \<and> \<not> finishedConn s \<and> \<not> canceledConn s \<and> deleteLaterCalls s = 1)"
proof -
  have nf: "\<not> stateFinished (pending :: (int, string) QFuture)"
    and nc: "\<not> stateCanceled (pending :: (int, string) QFuture)"
    by (simp_all add: sample_defs)
  from teardown_before_resume [OF nf nc, of about_to_resume
      "WaitForFinishedOperation (ValueType (Some 0))"]
    teardown_before_resume [OF nf nc, of both_fire
      "WaitForFinishedOperation (ValueType (Some 0))"]
    nf nc
  show ?thesis
    by (simp add: run_both_fire run_about_to_resume teardown_then_resume_def)
qed

end
